theory Spec2Isabelle
  imports Main "HOL-Library.Word"
begin

unbundle bit_operations_syntax

section \<open>Strings, bytes and errors\<close>

text \<open>
  A Python \<open>str\<close> is modelled by its UTF-8 encoding, a \<open>string\<close> (list of 8-bit
  characters); \<open>bytes\<close> objects are byte lists of the same type.  Under this
  representation \<open>data.encode("utf-8")\<close> is the identity, equality of strings is
  equality of lists, and \<open>bytes.decode("utf-8", errors="ignore")\<close> is the function
  \<open>utf8_decode_ignore\<close> below, which removes the byte sequences the decoder rejects.

  Exceptions are values: every function that can raise returns \<open>py_error + 'a\<close>.
\<close>

datatype py_error =
    BinasciiError   \<comment> \<open>\<open>binascii.Error\<close>, raised by \<open>base64.urlsafe_b64decode\<close>\<close>
  | KeyError        \<comment> \<open>\<open>m["id"]\<close> on a listed entry without an id\<close>
  | ServiceError    \<comment> \<open>any failure of a call to the Gmail service object\<close>

type_synonym byte = "8 word"

definition byte_of :: "char \<Rightarrow> byte" where
  "byte_of c = of_nat (of_char c)"

definition char_of_byte :: "byte \<Rightarrow> char" where
  "char_of_byte w = char_of (unat w)"

section \<open>\<open>base64.urlsafe_b64decode\<close>\<close>

text \<open>
  The library function first maps \<open>-\<close> to \<open>+\<close> and \<open>_\<close> to \<open>/\<close>, then calls
  \<open>binascii.a2b_base64\<close> in its non-strict mode.  The definitions follow the C
  implementation of CPython 3.11: the lookup table \<open>table_a2b_base64\<close> (255 stands
  for the table's \<open>-1\<close>), and the loop over the input with its variables
  \<open>quad_pos\<close>, \<open>leftchar\<close> and \<open>pads\<close>.
\<close>

definition urlsafe_decode_translation :: "char \<Rightarrow> char" where
  "urlsafe_decode_translation c =
     (if c = CHR ''-'' then CHR ''+'' else if c = CHR ''_'' then CHR ''/'' else c)"

definition table_a2b_base64 :: "char \<Rightarrow> byte" where
  "table_a2b_base64 c =
     (let n = (of_char c :: nat) in
      if 65 \<le> n \<and> n \<le> 90 then of_nat (n - 65)
      else if 97 \<le> n \<and> n \<le> 122 then of_nat (n - 71)
      else if 48 \<le> n \<and> n \<le> 57 then of_nat (n + 4)
      else if n = 43 then 62
      else if n = 47 then 63
      else 255)"

fun a2b_loop :: "string \<Rightarrow> nat \<Rightarrow> byte \<Rightarrow> nat \<Rightarrow> string \<Rightarrow> py_error + string" where
  "a2b_loop [] quad_pos leftchar pads bin_data =
     (if quad_pos \<noteq> 0 then Inl BinasciiError else Inr bin_data)"
| "a2b_loop (c # cs) quad_pos leftchar pads bin_data =
     (if c = CHR ''='' then
        (if quad_pos \<ge> 2 then
           (if quad_pos + (pads + 1) \<ge> 4 then Inr bin_data
            else a2b_loop cs quad_pos leftchar (pads + 1) bin_data)
         else a2b_loop cs quad_pos leftchar pads bin_data)
      else
        (let this_ch = table_a2b_base64 c in
         if this_ch \<ge> 64 then a2b_loop cs quad_pos leftchar pads bin_data
         else if quad_pos = 0 then
           a2b_loop cs 1 this_ch 0 bin_data
         else if quad_pos = 1 then
           a2b_loop cs 2 (this_ch AND 0x0f) 0
             (bin_data @ [char_of_byte (push_bit 2 leftchar OR drop_bit 4 this_ch)])
         else if quad_pos = 2 then
           a2b_loop cs 3 (this_ch AND 0x03) 0
             (bin_data @ [char_of_byte (push_bit 4 leftchar OR drop_bit 2 this_ch)])
         else
           a2b_loop cs 0 0 0
             (bin_data @ [char_of_byte (push_bit 6 leftchar OR this_ch)])))"

definition a2b_base64 :: "string \<Rightarrow> py_error + string" where
  "a2b_base64 s = a2b_loop s 0 0 0 []"

definition urlsafe_b64decode :: "string \<Rightarrow> py_error + string" where
  "urlsafe_b64decode s = a2b_base64 (map urlsafe_decode_translation s)"

section \<open>\<open>bytes.decode("utf-8", errors="ignore")\<close>\<close>

text \<open>
  CPython's UTF-8 decoder reads one character at a time.  At an ill-formed sequence it
  reports the range of offending bytes to the error handler, and the handler
  \<open>ignore\<close> resumes after that range without producing output.  \<open>utf8_step\<close> is one
  such step on a non-empty input: the bytes it emits and the number of bytes it
  consumes.  The cases follow the decoder's: a wrong start byte is one byte, a wrong
  first, second or third continuation byte ends a range of one, two or three bytes, and
  a sequence cut off by the end of the input is dropped whole.
\<close>

definition is_continuation_byte :: "char \<Rightarrow> bool" where
  "is_continuation_byte c = (0x80 \<le> (of_char c :: nat) \<and> (of_char c :: nat) < 0xC0)"

definition utf8_seq2 :: "string \<Rightarrow> string \<times> nat" where
  \<comment> \<open>lead byte below \<open>0xE0\<close>: a two-byte sequence\<close>
  "utf8_seq2 s =
     (let ch = (of_char (hd s) :: nat); n = length s in
      if ch < 0xC2 then ([], 1)
      else if n < 2 then ([], n)
      else if \<not> is_continuation_byte (s ! 1) then ([], 1)
      else (take 2 s, 2))"

definition utf8_seq3 :: "string \<Rightarrow> string \<times> nat" where
  \<comment> \<open>lead byte below \<open>0xF0\<close>: a three-byte sequence\<close>
  "utf8_seq3 s =
     (let ch = (of_char (hd s) :: nat); n = length s;
          ch2 = (of_char (s ! 1) :: nat) in
      if n < 3 then
        (if n < 2 then ([], n)
         else if \<not> is_continuation_byte (s ! 1)
                 \<or> (if ch2 < 0xA0 then ch = 0xE0 else ch = 0xED) then ([], 1)
         else ([], n))
      else if \<not> is_continuation_byte (s ! 1) then ([], 1)
      else if ch = 0xE0 \<and> ch2 < 0xA0 then ([], 1)
      else if ch = 0xED \<and> ch2 \<ge> 0xA0 then ([], 1)
      else if \<not> is_continuation_byte (s ! 2) then ([], 2)
      else (take 3 s, 3))"

definition utf8_seq4 :: "string \<Rightarrow> string \<times> nat" where
  \<comment> \<open>lead byte below \<open>0xF5\<close>: a four-byte sequence\<close>
  "utf8_seq4 s =
     (let ch = (of_char (hd s) :: nat); n = length s;
          ch2 = (of_char (s ! 1) :: nat) in
      if n < 4 then
        (if n < 2 then ([], n)
         else if \<not> is_continuation_byte (s ! 1)
                 \<or> (if ch2 < 0x90 then ch = 0xF0 else ch = 0xF4) then ([], 1)
         else if n < 3 then ([], n)
         else if \<not> is_continuation_byte (s ! 2) then ([], 2)
         else ([], n))
      else if \<not> is_continuation_byte (s ! 1) then ([], 1)
      else if ch = 0xF0 \<and> ch2 < 0x90 then ([], 1)
      else if ch = 0xF4 \<and> ch2 \<ge> 0x90 then ([], 1)
      else if \<not> is_continuation_byte (s ! 2) then ([], 2)
      else if \<not> is_continuation_byte (s ! 3) then ([], 3)
      else (take 4 s, 4))"

definition utf8_step :: "string \<Rightarrow> string \<times> nat" where
  "utf8_step s =
     (let ch = (of_char (hd s) :: nat) in
      if ch < 0x80 then ([hd s], 1)
      else if ch < 0xE0 then utf8_seq2 s
      else if ch < 0xF0 then utf8_seq3 s
      else if ch < 0xF5 then utf8_seq4 s
      else ([], 1))"

text \<open>
  The loop of the decoder.  A step on a non-empty input consumes at least one byte
  (\<open>utf8_step_consumes\<close> below), so dropping \<open>k - 1\<close> bytes after the first is
  dropping the \<open>k\<close> bytes of the step.
\<close>

fun utf8_decode_ignore :: "string \<Rightarrow> string" where
  "utf8_decode_ignore [] = []"
| "utf8_decode_ignore (c # cs) =
     fst (utf8_step (c # cs)) @ utf8_decode_ignore (drop (snd (utf8_step (c # cs)) - 1) cs)"

section \<open>\<open>_decode_part\<close>\<close>

text \<open>
  The argument is \<open>None\<close> for an absent value; \<open>not data\<close> holds for \<open>None\<close> and for
  the empty string.  The base64 step can raise, the UTF-8 step cannot.
\<close>

definition decode_part :: "string option \<Rightarrow> py_error + string" where
  "decode_part data =
     (case data of
        None \<Rightarrow> Inr []
      | Some d \<Rightarrow>
          if d = [] then Inr []
          else (case urlsafe_b64decode d of
                  Inl e \<Rightarrow> Inl e
                | Inr decoded \<Rightarrow> Inr (utf8_decode_ignore decoded)))"

section \<open>Message parts and \<open>extract_body_from_payload\<close>\<close>

text \<open>
  A part of a message is a dictionary; the code reads three of its entries.
  \<open>mimeType\<close> is \<open>None\<close> when the key is missing (\<open>part.get("mimeType", "")\<close> is then the
  empty string).  \<open>body_data\<close> is the value of \<open>part.get("body", {}).get("data")\<close>,
  \<open>None\<close> when either key is missing.  \<open>parts\<close> is the list under \<open>"parts"\<close>, empty when
  the key is missing or its value is \<open>None\<close> (\<open>part.get("parts", []) or []\<close>).
\<close>

datatype part = Part (mimeType: "string option") (body_data: "string option") (parts: "part list")

definition get_mimeType :: "part \<Rightarrow> string" where
  "get_mimeType p = (case mimeType p of None \<Rightarrow> [] | Some m \<Rightarrow> m)"

definition truthy :: "string option \<Rightarrow> bool" where
  \<comment> \<open>Python's \<open>if data:\<close> on \<open>None\<close> or a string\<close>
  "truthy data = (case data of None \<Rightarrow> False | Some d \<Rightarrow> d \<noteq> [])"

text \<open>
  The block the code runs on a part and, in the same words, on each of its sub-parts:
  decode the data into \<open>text_parts\<close> or \<open>html_parts\<close> according to the MIME type.
  \<open>_decode_part\<close> is called only when the type is one of the two.
\<close>

definition collect_data :: "part \<Rightarrow> string list \<times> string list \<Rightarrow> py_error + string list \<times> string list" where
  "collect_data p acc =
     (case acc of (text_parts, html_parts) \<Rightarrow>
        if truthy (body_data p) then
          (if get_mimeType p = ''text/plain'' then
             (case decode_part (body_data p) of
                Inl e \<Rightarrow> Inl e
              | Inr t \<Rightarrow> Inr (text_parts @ [t], html_parts))
           else if get_mimeType p = ''text/html'' then
             (case decode_part (body_data p) of
                Inl e \<Rightarrow> Inl e
              | Inr t \<Rightarrow> Inr (text_parts, html_parts @ [t]))
           else Inr (text_parts, html_parts))
        else Inr (text_parts, html_parts))"

fun sub_loop :: "part list \<Rightarrow> string list \<times> string list \<Rightarrow> py_error + string list \<times> string list" where
  "sub_loop [] acc = Inr acc"
| "sub_loop (sub # subs) acc =
     (case collect_data sub acc of
        Inl e \<Rightarrow> Inl e
      | Inr acc' \<Rightarrow> sub_loop subs acc')"

fun parts_loop :: "part list \<Rightarrow> string list \<times> string list \<Rightarrow> py_error + string list \<times> string list" where
  "parts_loop [] acc = Inr acc"
| "parts_loop (p # ps) acc =
     (case collect_data p acc of
        Inl e \<Rightarrow> Inl e
      | Inr acc' \<Rightarrow>
          (case sub_loop (parts p) acc' of
             Inl e \<Rightarrow> Inl e
           | Inr acc'' \<Rightarrow> parts_loop ps acc''))"

fun join :: "string \<Rightarrow> string list \<Rightarrow> string" where
  "join sep [] = []"
| "join sep [x] = x"
| "join sep (x # y # ys) = x @ sep @ join sep (y # ys)"

definition no_readable_body :: string where
  "no_readable_body = ''(No readable body found)''"

text \<open>
  \<open>BeautifulSoup(html, "html.parser").get_text()\<close> is a call into a library; the
  function \<open>get_text\<close> that strips the markup is a parameter.
\<close>

definition extract_body_from_payload :: "(string \<Rightarrow> string) \<Rightarrow> part \<Rightarrow> py_error + string" where
  "extract_body_from_payload get_text payload =
     (if truthy (body_data payload) then decode_part (body_data payload)
      else
        (case parts_loop (parts payload) ([], []) of
           Inl e \<Rightarrow> Inl e
         | Inr (text_parts, html_parts) \<Rightarrow>
             if text_parts \<noteq> [] then Inr (join [CHR 0x0A, CHR 0x0A] text_parts)
             else if html_parts \<noteq> [] then Inr (get_text (hd html_parts))
             else Inr no_readable_body))"

section \<open>\<open>fetch_unread_emails\<close>\<close>

text \<open>
  A header is a dictionary read with \<open>h.get("name", "")\<close> and
  \<open>h.get("value", subject)\<close>: both entries may be missing.  \<open>lower\<close> is \<open>str.lower\<close>
  on the letters \<open>A\<close> to \<open>Z\<close>; no other character is mapped by \<open>str.lower\<close> to a
  letter of \<open>subject\<close> or \<open>from\<close>, so the two comparisons of the code are not affected.
\<close>

record header =
  h_name :: "string option"
  h_value :: "string option"

definition lower_char :: "char \<Rightarrow> char" where
  "lower_char c =
     (if 65 \<le> (of_char c :: nat) \<and> (of_char c :: nat) \<le> 90
      then char_of ((of_char c :: nat) + 32) else c)"

definition lower :: "string \<Rightarrow> string" where
  "lower s = map lower_char s"

definition lower_name :: "header \<Rightarrow> string" where
  \<comment> \<open>\<open>h.get("name", "").lower()\<close>\<close>
  "lower_name h = lower (case h_name h of None \<Rightarrow> [] | Some n \<Rightarrow> n)"

fun header_loop :: "header list \<Rightarrow> string \<times> string \<Rightarrow> string \<times> string" where
  "header_loop [] (subject, sender) = (subject, sender)"
| "header_loop (h # hs) (subject, sender) =
     (let name = lower_name h in
      if name = ''subject'' then
        header_loop hs ((case h_value h of None \<Rightarrow> subject | Some v \<Rightarrow> v), sender)
      else if name = ''from'' then
        header_loop hs (subject, (case h_value h of None \<Rightarrow> sender | Some v \<Rightarrow> v))
      else header_loop hs (subject, sender))"

definition subject_and_sender :: "header list \<Rightarrow> string \<times> string" where
  \<comment> \<open>the two variables after the loop over the headers, from their initial values\<close>
  "subject_and_sender hs = header_loop hs (''(No Subject)'', ''(Unknown Sender)'')"

text \<open>
  The message dictionary \<open>mdata\<close>: its payload is the root part together with the
  headers (\<open>payload.get("headers", [])\<close>, empty when missing); a missing payload is
  the empty dictionary, that is no headers and a root part with no entry.
\<close>

record payload =
  headers :: "header list"
  root :: part

record mdata =
  md_payload :: "payload option"
  md_snippet :: "string option"

definition get_payload :: "mdata \<Rightarrow> payload" where
  "get_payload md =
     (case md_payload md of
        None \<Rightarrow> \<lparr>headers = [], root = Part None None []\<rparr>
      | Some p \<Rightarrow> p)"

record email =
  e_id :: string
  e_subject :: string
  e_sender :: string
  e_body :: string
  e_snippet :: string

text \<open>
  The Gmail service object, as far as the code calls it.  \<open>messages_list n\<close> is the
  response of the \<open>list\<close> request with \<open>maxResults = n\<close>: an error, or the value of
  \<open>resp.get("messages", [])\<close>, each listed entry given by its \<open>"id"\<close> (\<open>None\<close> when
  the entry has none).  \<open>messages_get i\<close> is the response of the \<open>get\<close> request for the
  identifier \<open>i\<close>.
\<close>

record service =
  messages_list :: "int \<Rightarrow> py_error + string option list"
  messages_get :: "string \<Rightarrow> py_error + mdata"

definition build_email :: "(string \<Rightarrow> string) \<Rightarrow> string \<Rightarrow> mdata \<Rightarrow> py_error + email" where
  \<comment> \<open>the body of the loop after the message has been retrieved\<close>
  "build_email get_text mid md =
     (let pl = get_payload md;
          (subject, sender) = subject_and_sender (headers pl) in
      case extract_body_from_payload get_text (root pl) of
        Inl e \<Rightarrow> Inl e
      | Inr body \<Rightarrow>
          Inr \<lparr>e_id = mid, e_subject = subject, e_sender = sender, e_body = body,
               e_snippet = (case md_snippet md of None \<Rightarrow> [] | Some s \<Rightarrow> s)\<rparr>)"

fun fetch_loop :: "(string \<Rightarrow> string) \<Rightarrow> service \<Rightarrow> string option list \<Rightarrow> email list \<Rightarrow> py_error + email list" where
  "fetch_loop get_text svc [] results = Inr results"
| "fetch_loop get_text svc (m # msgs) results =
     (case m of
        None \<Rightarrow> Inl KeyError
      | Some mid \<Rightarrow>
          (case messages_get svc mid of
             Inl e \<Rightarrow> Inl e
           | Inr md \<Rightarrow>
               (case build_email get_text mid md of
                  Inl e \<Rightarrow> Inl e
                | Inr r \<Rightarrow> fetch_loop get_text svc msgs (results @ [r]))))"

definition fetch_unread_emails :: "(string \<Rightarrow> string) \<Rightarrow> service \<Rightarrow> int \<Rightarrow> py_error + email list" where
  "fetch_unread_emails get_text svc max_results =
     (case messages_list svc max_results of
        Inl e \<Rightarrow> Inl e
      | Inr msgs \<Rightarrow> fetch_loop get_text svc msgs [])"

section \<open>Notions used to state the properties\<close>

subsection \<open>The encoders of the round-trip property\<close>

text \<open>
  Modelled from the spec: the source only decodes; the encoding side of the
  round-trip property (\<open>decode(encode(s)) == s\<close> for any UTF-8 string \<open>s\<close>) is not in
  the source.  \<open>urlsafe_b64encode\<close> is URL-safe base64 with padding, as
  \<open>base64.urlsafe_b64encode\<close> produces it: three bytes give four characters of the
  alphabet \<open>A-Z a-z 0-9 - _\<close>, and a last group of one or two bytes is padded with
  \<open>=\<close>.  \<open>utf8_encode\<close> is the UTF-8 encoding of a sequence of Unicode scalar values
  (code points below \<open>0x110000\<close> that are not surrogates); the UTF-8 strings are the
  encodings of such sequences.
\<close>

definition table_b2a_urlsafe :: "byte \<Rightarrow> char" where
  "table_b2a_urlsafe v =
     (let n = unat v in
      if n < 26 then char_of (n + 65)
      else if n < 52 then char_of (n + 71)
      else if n < 62 then char_of (n - 4)
      else if n = 62 then CHR ''-''
      else CHR ''_'')"

fun urlsafe_b64encode :: "string \<Rightarrow> string" where
  "urlsafe_b64encode [] = []"
| "urlsafe_b64encode [a] =
     [table_b2a_urlsafe (drop_bit 2 (byte_of a)),
      table_b2a_urlsafe (push_bit 4 (byte_of a AND 3)),
      CHR ''='', CHR ''='']"
| "urlsafe_b64encode [a, b] =
     [table_b2a_urlsafe (drop_bit 2 (byte_of a)),
      table_b2a_urlsafe (push_bit 4 (byte_of a AND 3) OR drop_bit 4 (byte_of b)),
      table_b2a_urlsafe (push_bit 2 (byte_of b AND 15)),
      CHR ''='']"
| "urlsafe_b64encode (a # b # c # rest) =
     [table_b2a_urlsafe (drop_bit 2 (byte_of a)),
      table_b2a_urlsafe (push_bit 4 (byte_of a AND 3) OR drop_bit 4 (byte_of b)),
      table_b2a_urlsafe (push_bit 2 (byte_of b AND 15) OR drop_bit 6 (byte_of c)),
      table_b2a_urlsafe (byte_of c AND 63)]
     @ urlsafe_b64encode rest"

definition is_scalar_value :: "nat \<Rightarrow> bool" where
  "is_scalar_value cp = (cp < 0xD800 \<or> (0xE000 \<le> cp \<and> cp < 0x110000))"

definition utf8_encode_char :: "nat \<Rightarrow> string" where
  "utf8_encode_char cp =
     (if cp < 0x80 then [char_of cp]
      else if cp < 0x800 then
        [char_of (0xC0 + cp div 64), char_of (0x80 + cp mod 64)]
      else if cp < 0x10000 then
        [char_of (0xE0 + cp div 4096), char_of (0x80 + cp div 64 mod 64),
         char_of (0x80 + cp mod 64)]
      else
        [char_of (0xF0 + cp div 262144), char_of (0x80 + cp div 4096 mod 64),
         char_of (0x80 + cp div 64 mod 64), char_of (0x80 + cp mod 64)])"

definition utf8_encode :: "nat list \<Rightarrow> string" where
  "utf8_encode cps = concat (map utf8_encode_char cps)"

subsection \<open>Characters of the base64 alphabet\<close>



subsection \<open>Traversal orders and bucket contents\<close>

text \<open>
  \<open>decoded_as mime p\<close> is what the part \<open>p\<close> contributes to the bucket of the MIME
  type \<open>mime\<close>: its decoded data when it has data of that type, nothing otherwise.
  \<open>decodable p\<close> says that visiting \<open>p\<close> raises no error.
\<close>

definition decoded_as :: "string \<Rightarrow> part \<Rightarrow> string list" where
  "decoded_as mime p =
     (if truthy (body_data p) \<and> get_mimeType p = mime then
        (case decode_part (body_data p) of Inl e \<Rightarrow> [] | Inr t \<Rightarrow> [t])
      else [])"

definition decodable :: "part \<Rightarrow> bool" where
  "decodable p =
     (if truthy (body_data p)
         \<and> (get_mimeType p = ''text/plain'' \<or> get_mimeType p = ''text/html'')
      then (case decode_part (body_data p) of Inl e \<Rightarrow> False | Inr t \<Rightarrow> True)
      else True)"

definition visit_order :: "part list \<Rightarrow> part list" where
  \<comment> \<open>the order of the two nested loops: each part, then its sub-parts\<close>
  "visit_order ps = concat (map (\<lambda>p. p # parts p) ps)"

definition spec_breadth_first_order :: "part list \<Rightarrow> part list" where
  \<comment> \<open>the order the specification describes: all top-level parts, then all their children\<close>
  "spec_breadth_first_order ps = ps @ concat (map parts ps)"

fun prune :: "nat \<Rightarrow> part \<Rightarrow> part" where
  \<comment> \<open>the tree cut below depth \<open>n\<close>\<close>
  "prune 0 (Part m d ps) = Part m d []"
| "prune (Suc n) (Part m d ps) = Part m d (map (prune n) ps)"

definition matching_headers :: "string \<Rightarrow> header list \<Rightarrow> header list" where
  \<comment> \<open>the headers whose name is \<open>key\<close> up to case\<close>
  "matching_headers key hs = filter (\<lambda>h. lower_name h = key) hs"


subsection \<open>A mailbox with three unread messages\<close>

text \<open>
  A service whose \<open>list\<close> request reports the three identifiers \<open>m1\<close>, \<open>m2\<close>, \<open>m3\<close>
  (at most \<open>maxResults\<close> of them) and whose \<open>get\<close> request returns, for any
  identifier, a message with a subject, a sender, a \<open>text/plain\<close> body holding
  \<open>A\<close> and the identifier as snippet.
\<close>

definition three_unread :: service where
  "three_unread =
     \<lparr>messages_list = (\<lambda>n. Inr (take (nat n) [Some ''m1'', Some ''m2'', Some ''m3''])),
      messages_get = (\<lambda>i. Inr
        \<lparr>md_payload = Some
           \<lparr>headers = [\<lparr>h_name = Some ''Subject'', h_value = Some ''Q3 Invoice''\<rparr>,
                       \<lparr>h_name = Some ''From'', h_value = Some ''billing@acme.test''\<rparr>],
            root = Part (Some ''text/plain'') (Some ''QQ=='') []\<rparr>,
         md_snippet = Some i\<rparr>)\<rparr>"

section \<open>Errors and the two loops of \<open>extract_body_from_payload\<close>\<close>

lemma a2b_loop_error: "a2b_loop cs q lc p out = Inl e \<Longrightarrow> e = BinasciiError"
  by (induction cs arbitrary: q lc p out) (auto simp: Let_def split: if_splits)

lemma decode_part_error: "decode_part d = Inl e \<Longrightarrow> e = BinasciiError"
  by (auto simp: decode_part_def urlsafe_b64decode_def a2b_base64_def
      split: option.splits if_splits sum.splits dest: a2b_loop_error)

lemma collect_data_eq:
  "collect_data p (tp, hp) =
     (if decodable p
      then Inr (tp @ decoded_as ''text/plain'' p, hp @ decoded_as ''text/html'' p)
      else Inl BinasciiError)"
  by (auto simp: collect_data_def decodable_def decoded_as_def
      split: sum.splits dest: decode_part_error)

lemma sub_loop_eq:
  "sub_loop subs (tp, hp) =
     (if list_all decodable subs
      then Inr (tp @ concat (map (decoded_as ''text/plain'') subs),
                hp @ concat (map (decoded_as ''text/html'') subs))
      else Inl BinasciiError)"
  by (induction subs arbitrary: tp hp) (simp_all add: collect_data_eq)

lemma parts_loop_eq:
  "parts_loop ps (tp, hp) =
     (if list_all decodable (visit_order ps)
      then Inr (tp @ concat (map (decoded_as ''text/plain'') (visit_order ps)),
                hp @ concat (map (decoded_as ''text/html'') (visit_order ps)))
      else Inl BinasciiError)"
  by (induction ps arbitrary: tp hp)
    (simp_all add: collect_data_eq sub_loop_eq visit_order_def)

lemma visit_order_set: "set (visit_order ps) = set ps \<union> (\<Union>p\<in>set ps. set (parts p))"
  by (auto simp: visit_order_def)

lemma decoded_as_falsy: "\<not> truthy (body_data p) \<Longrightarrow> decoded_as mime p = []"
  by (simp add: decoded_as_def)

lemma decodable_falsy: "\<not> truthy (body_data p) \<Longrightarrow> decodable p"
  by (simp add: decodable_def)

subsection \<open>Nothing below depth two is read\<close>

lemma body_data_prune: "body_data (prune n p) = body_data p"
  by (cases p; cases n) simp_all

lemma mimeType_prune: "mimeType (prune n p) = mimeType p"
  by (cases p; cases n) simp_all

lemma get_mimeType_prune: "get_mimeType (prune n p) = get_mimeType p"
  by (simp add: get_mimeType_def mimeType_prune)

lemma parts_prune_Suc: "parts (prune (Suc n) p) = map (prune n) (parts p)"
  by (cases p) simp

lemma collect_data_prune: "collect_data (prune n p) acc = collect_data p acc"
  unfolding collect_data_def get_mimeType_prune body_data_prune ..

lemma sub_loop_prune: "sub_loop (map (prune n) subs) acc = sub_loop subs acc"
  by (induction subs arbitrary: acc) (simp_all add: collect_data_prune split: sum.splits)

lemma parts_loop_prune: "parts_loop (map (prune (Suc n)) ps) acc = parts_loop ps acc"
  by (induction ps arbitrary: acc)
    (simp_all add: collect_data_prune sub_loop_prune parts_prune_Suc split: sum.splits)

lemma extract_prune:
  "extract_body_from_payload get_text (prune (Suc (Suc n)) payload) =
   extract_body_from_payload get_text payload"
  by (simp add: extract_body_from_payload_def body_data_prune parts_prune_Suc parts_loop_prune)

section \<open>Properties of \<open>_decode_part\<close>\<close>

subsection \<open>Bytes and the base64 tables\<close>

lemma lt8_cases: "n < 8 \<Longrightarrow> n \<in> {0, 1, 2, 3, 4, 5, 6, 7 :: nat}"
  by auto

lemma byte_eqI:
  fixes a b :: byte
  assumes "bit a 0 = bit b 0" "bit a 1 = bit b 1" "bit a 2 = bit b 2" "bit a 3 = bit b 3"
    "bit a 4 = bit b 4" "bit a 5 = bit b 5" "bit a 6 = bit b 6" "bit a 7 = bit b 7"
  shows "a = b"
proof (rule bit_word_eqI)
  fix n assume "n < LENGTH(8)"
  then have "n < 8" by simp
  from lt8_cases [OF this] assms show "bit a n = bit b n" by auto
qed

lemma bit_byte_high: "8 \<le> n \<Longrightarrow> \<not> bit (a :: byte) n"
  by (auto dest: bit_imp_le_length)

lemma byte_3_mask: "(3::byte) = mask 2" by (simp add: mask_eq_exp_minus_1)
lemma byte_15_mask: "(15::byte) = mask 4" by (simp add: mask_eq_exp_minus_1)
lemma byte_63_mask: "(63::byte) = mask 6" by (simp add: mask_eq_exp_minus_1)

lemma byte_lt_64_iff: "(v :: byte) < 64 \<longleftrightarrow> \<not> bit v 6 \<and> \<not> bit v 7"
proof -
  have "(v < 64) = (v AND mask 6 = v)"
    using mask_eq_iff_w2p [of 6 v] by (simp add: word_size)
  also have "\<dots> = (\<not> bit v 6 \<and> \<not> bit v 7)"
  proof
    assume "v AND mask 6 = v"
    then have "bit (v AND mask 6) n = bit v n" for n by simp
    from this [of 6] this [of 7] show "\<not> bit v 6 \<and> \<not> bit v 7"
      by (simp add: bit_simps)
  next
    assume h: "\<not> bit v 6 \<and> \<not> bit v 7"
    show "v AND mask 6 = v"
      by (rule byte_eqI) (use h in \<open>simp_all add: bit_simps\<close>)
  qed
  finally show ?thesis .
qed

lemma sextet1: "drop_bit 2 (a::byte) < 64"
  by (simp add: byte_lt_64_iff bit_simps bit_byte_high)
lemma sextet2: "push_bit 4 (a AND 3) OR drop_bit 4 b < (64::byte)"
  unfolding byte_3_mask by (simp add: byte_lt_64_iff bit_simps bit_byte_high)
lemma sextet3: "push_bit 2 (b AND 15) OR drop_bit 6 c < (64::byte)"
  unfolding byte_15_mask by (simp add: byte_lt_64_iff bit_simps bit_byte_high)
lemma sextet4: "c AND 63 < (64::byte)"
  unfolding byte_63_mask by (simp add: byte_lt_64_iff bit_simps)
lemma sextet2': "push_bit 4 (a AND 3) < (64::byte)"
  unfolding byte_3_mask by (simp add: byte_lt_64_iff bit_simps bit_byte_high)
lemma sextet3': "push_bit 2 (b AND 15) < (64::byte)"
  unfolding byte_15_mask by (simp add: byte_lt_64_iff bit_simps bit_byte_high)

lemma octet1: "push_bit 2 (drop_bit 2 a) OR drop_bit 4 (push_bit 4 (a AND 3) OR drop_bit 4 b) = (a::byte)"
  unfolding byte_3_mask by (rule byte_eqI) (simp_all add: bit_simps)
lemma octet2: "push_bit 4 ((push_bit 4 (a AND 3) OR drop_bit 4 b) AND 15) OR drop_bit 2 (push_bit 2 (b AND 15) OR drop_bit 6 c) = (b::byte)"
  unfolding byte_3_mask byte_15_mask by (rule byte_eqI) (simp_all add: bit_simps)
lemma octet3: "push_bit 6 ((push_bit 2 (b AND 15) OR drop_bit 6 c) AND 3) OR (c AND 63) = (c::byte)"
  unfolding byte_3_mask byte_15_mask byte_63_mask by (rule byte_eqI) (simp_all add: bit_simps)
lemma octet1': "push_bit 2 (drop_bit 2 a) OR drop_bit 4 (push_bit 4 (a AND 3)) = (a::byte)"
  unfolding byte_3_mask by (rule byte_eqI) (simp_all add: bit_simps)
lemma octet2': "push_bit 4 ((push_bit 4 (a AND 3) OR drop_bit 4 b) AND 15) OR drop_bit 2 (push_bit 2 (b AND 15)) = (b::byte)"
  unfolding byte_3_mask byte_15_mask by (rule byte_eqI) (simp_all add: bit_simps)

lemma char_of_byte_of: "char_of_byte (byte_of c) = c"
  unfolding byte_of_def char_of_byte_def by (simp add: unat_of_nat)

lemma unat_byte_lt_64: "(v::byte) < 64 \<Longrightarrow> unat v < 64"
  by (simp add: word_less_nat_alt)

lemma char_is_iff:
  "c = CHR ''='' \<longleftrightarrow> (of_char c :: nat) = 61"
  "c = CHR ''-'' \<longleftrightarrow> (of_char c :: nat) = 45"
  "c = CHR ''_'' \<longleftrightarrow> (of_char c :: nat) = 95"
proof -
  have "(of_char c :: nat) = of_char (CHR ''='') \<longleftrightarrow> c = CHR ''=''"
    "(of_char c :: nat) = of_char (CHR ''-'') \<longleftrightarrow> c = CHR ''-''"
    "(of_char c :: nat) = of_char (CHR ''_'') \<longleftrightarrow> c = CHR ''_''"
    by (rule of_char_eq_iff)+
  then show "c = CHR ''='' \<longleftrightarrow> (of_char c :: nat) = 61"
    "c = CHR ''-'' \<longleftrightarrow> (of_char c :: nat) = 45"
    "c = CHR ''_'' \<longleftrightarrow> (of_char c :: nat) = 95"
    by simp_all
qed

lemma table_translation:
  "table_a2b_base64 (urlsafe_decode_translation c) =
     (let n = (of_char c :: nat) in
      if 65 \<le> n \<and> n \<le> 90 then of_nat (n - 65)
      else if 97 \<le> n \<and> n \<le> 122 then of_nat (n - 71)
      else if 48 \<le> n \<and> n \<le> 57 then of_nat (n + 4)
      else if n = 43 \<or> n = 45 then 62
      else if n = 47 \<or> n = 95 then 63
      else 255)"
  by (simp add: urlsafe_decode_translation_def table_a2b_base64_def char_is_iff Let_def)

lemma of_char_table_b2a:
  "(of_char (table_b2a_urlsafe v) :: nat) =
     (let n = unat v in
      if n < 26 then n + 65 else if n < 52 then n + 71 else if n < 62 then n - 4
      else if n = 62 then 45 else 95)"
  by (simp add: table_b2a_urlsafe_def Let_def)

lemma table_b2a_not_pad: "table_b2a_urlsafe v \<noteq> CHR ''=''"
  unfolding char_is_iff of_char_table_b2a Let_def by (simp; arith)

lemma translation_not_pad: "c \<noteq> CHR ''='' \<Longrightarrow> urlsafe_decode_translation c \<noteq> CHR ''=''"
  by (simp add: urlsafe_decode_translation_def)

lemma table_roundtrip:
  assumes "v < 64"
  shows "table_a2b_base64 (urlsafe_decode_translation (table_b2a_urlsafe v)) = v"
proof -
  let ?n = "unat v"
  from assms have n: "?n < 64" by (rule unat_byte_lt_64)
  consider "?n < 26" | "26 \<le> ?n" "?n < 52" | "52 \<le> ?n" "?n < 62" | "?n = 62" | "?n = 63"
    using n by linarith
  then show ?thesis
  proof cases
    case 1
    then show ?thesis
      unfolding table_translation of_char_table_b2a Let_def by simp
  next
    case 2
    then show ?thesis
      unfolding table_translation of_char_table_b2a Let_def by simp
  next
    case 3
    define m where "m = ?n - 4"
    with 3 have m: "48 \<le> m" "m \<le> 57" "?n = m + 4" by simp_all
    have "(of_nat ?n :: byte) = v" by simp
    with m(3) have "of_nat (m + 4) = v" by simp
    with 3 m show ?thesis
      unfolding table_translation of_char_table_b2a Let_def m_def [symmetric] by simp
  next
    case 4
    moreover have "(of_nat ?n :: byte) = v" by simp
    ultimately have "v = 62" by simp
    with 4 show ?thesis
      unfolding table_translation of_char_table_b2a Let_def by simp
  next
    case 5
    moreover have "(of_nat ?n :: byte) = v" by simp
    ultimately have "v = 63" by simp
    with 5 show ?thesis
      unfolding table_translation of_char_table_b2a Let_def by simp
  qed
qed

subsection \<open>Decoding an encoded byte string\<close>

lemma a2b_step:
  assumes "c \<noteq> CHR ''=''" and "table_a2b_base64 c = v" and "v < 64"
  shows "a2b_loop (c # cs) q lc p out =
     (if q = 0 then a2b_loop cs 1 v 0 out
      else if q = 1 then
        a2b_loop cs 2 (v AND 0x0f) 0 (out @ [char_of_byte (push_bit 2 lc OR drop_bit 4 v)])
      else if q = 2 then
        a2b_loop cs 3 (v AND 0x03) 0 (out @ [char_of_byte (push_bit 4 lc OR drop_bit 2 v)])
      else a2b_loop cs 0 0 0 (out @ [char_of_byte (push_bit 6 lc OR v)]))"
proof -
  from assms(3) have "\<not> 64 \<le> v" by simp
  with assms(1,2) show ?thesis by (simp add: Let_def)
qed

lemma a2b_sextet:
  assumes "v < 64"
  shows "a2b_loop (urlsafe_decode_translation (table_b2a_urlsafe v) # cs) q lc p out =
     (if q = 0 then a2b_loop cs 1 v 0 out
      else if q = 1 then
        a2b_loop cs 2 (v AND 0x0f) 0 (out @ [char_of_byte (push_bit 2 lc OR drop_bit 4 v)])
      else if q = 2 then
        a2b_loop cs 3 (v AND 0x03) 0 (out @ [char_of_byte (push_bit 4 lc OR drop_bit 2 v)])
      else a2b_loop cs 0 0 0 (out @ [char_of_byte (push_bit 6 lc OR v)]))"
  by (rule a2b_step [OF translation_not_pad [OF table_b2a_not_pad] table_roundtrip [OF assms] assms])

lemma translation_pad: "urlsafe_decode_translation (CHR ''='') = CHR ''=''"
  by (simp add: urlsafe_decode_translation_def)

lemma a2b_pad2: "a2b_loop (CHR ''='' # CHR ''='' # cs) 2 lc 0 out = Inr out"
  by simp

lemma a2b_pad1: "a2b_loop (CHR ''='' # cs) 3 lc 0 out = Inr out"
  by simp

lemma a2b_group4:
  assumes "v1 < 64" "v2 < 64" "v3 < 64" "v4 < 64"
  shows "a2b_loop (urlsafe_decode_translation (table_b2a_urlsafe v1)
           # urlsafe_decode_translation (table_b2a_urlsafe v2)
           # urlsafe_decode_translation (table_b2a_urlsafe v3)
           # urlsafe_decode_translation (table_b2a_urlsafe v4) # cs) 0 lc p out =
         a2b_loop cs 0 0 0
           (out @ [char_of_byte (push_bit 2 v1 OR drop_bit 4 v2),
                   char_of_byte (push_bit 4 (v2 AND 15) OR drop_bit 2 v3),
                   char_of_byte (push_bit 6 (v3 AND 3) OR v4)])"
  using assms by (simp add: a2b_sextet del: a2b_loop.simps)

lemma a2b_group3:
  assumes "v1 < 64" "v2 < 64" "v3 < 64"
  shows "a2b_loop (urlsafe_decode_translation (table_b2a_urlsafe v1)
           # urlsafe_decode_translation (table_b2a_urlsafe v2)
           # urlsafe_decode_translation (table_b2a_urlsafe v3)
           # CHR ''='' # cs) 0 lc p out =
         Inr (out @ [char_of_byte (push_bit 2 v1 OR drop_bit 4 v2),
                     char_of_byte (push_bit 4 (v2 AND 15) OR drop_bit 2 v3)])"
  using assms by (simp add: a2b_sextet a2b_pad1 del: a2b_loop.simps)

lemma a2b_group2:
  assumes "v1 < 64" "v2 < 64"
  shows "a2b_loop (urlsafe_decode_translation (table_b2a_urlsafe v1)
           # urlsafe_decode_translation (table_b2a_urlsafe v2)
           # CHR ''='' # CHR ''='' # cs) 0 lc p out =
         Inr (out @ [char_of_byte (push_bit 2 v1 OR drop_bit 4 v2)])"
  using assms by (simp add: a2b_sextet a2b_pad2 del: a2b_loop.simps)

lemma a2b_encode:
  "a2b_loop (map urlsafe_decode_translation (urlsafe_b64encode bs)) 0 lc p out = Inr (out @ bs)"
proof (induction bs arbitrary: lc p out rule: urlsafe_b64encode.induct)
  case 1
  show ?case by simp
next
  case (2 a)
  show ?case
    unfolding urlsafe_b64encode.simps list.map translation_pad
      a2b_group2 [OF sextet1 sextet2'] octet1' char_of_byte_of ..
next
  case (3 a b)
  show ?case
    unfolding urlsafe_b64encode.simps list.map translation_pad
      a2b_group3 [OF sextet1 sextet2 sextet3'] octet1 octet2' char_of_byte_of ..
next
  case (4 a b c rest)
  show ?case
    unfolding urlsafe_b64encode.simps list.map map_append append.simps
      a2b_group4 [OF sextet1 sextet2 sextet3 sextet4] octet1 octet2 octet3 char_of_byte_of
      "4.IH"
    by simp
qed

lemma urlsafe_b64decode_encode: "urlsafe_b64decode (urlsafe_b64encode bs) = Inr bs"
  by (simp add: urlsafe_b64decode_def a2b_base64_def a2b_encode)

lemma urlsafe_b64encode_eq_Nil: "urlsafe_b64encode bs = [] \<longleftrightarrow> bs = []"
  by (cases bs rule: urlsafe_b64encode.cases) simp_all

subsection \<open>The UTF-8 decoder on well-formed input\<close>

lemma utf8_seq2_consumes: "s \<noteq> [] \<Longrightarrow> 0 < snd (utf8_seq2 s)"
  by (auto simp: utf8_seq2_def Let_def)

lemma utf8_seq3_consumes: "s \<noteq> [] \<Longrightarrow> 0 < snd (utf8_seq3 s)"
  by (auto simp: utf8_seq3_def Let_def)

lemma utf8_seq4_consumes: "s \<noteq> [] \<Longrightarrow> 0 < snd (utf8_seq4 s)"
  by (auto simp: utf8_seq4_def Let_def)

lemma utf8_step_consumes: "s \<noteq> [] \<Longrightarrow> 0 < snd (utf8_step s)"
  by (simp add: utf8_step_def Let_def utf8_seq2_consumes utf8_seq3_consumes utf8_seq4_consumes)

lemma utf8_decode_ignore_step:
  "s \<noteq> [] \<Longrightarrow>
   utf8_decode_ignore s = fst (utf8_step s) @ utf8_decode_ignore (drop (snd (utf8_step s)) s)"
proof -
  assume "s \<noteq> []"
  then obtain c cs where s: "s = c # cs" by (cases s) auto
  from utf8_step_consumes [of s] s obtain k where k: "snd (utf8_step (c # cs)) = Suc k"
    by (cases "snd (utf8_step (c # cs))") auto
  show ?thesis unfolding s by (simp add: k)
qed

lemma utf8_step_1:
  "(of_char c :: nat) < 0x80 \<Longrightarrow> utf8_step (c # rest) = ([c], 1)"
  by (simp add: utf8_step_def)

lemma utf8_step_2:
  assumes "0xC2 \<le> (of_char c1 :: nat)" "(of_char c1 :: nat) < 0xE0" "is_continuation_byte c2"
  shows "utf8_step (c1 # c2 # rest) = ([c1, c2], 2)"
  using assms by (simp add: utf8_step_def utf8_seq2_def)

lemma utf8_step_3:
  assumes "0xE0 \<le> (of_char c1 :: nat)" "(of_char c1 :: nat) < 0xF0"
    "is_continuation_byte c2" "is_continuation_byte c3"
    "(of_char c1 :: nat) = 0xE0 \<longrightarrow> 0xA0 \<le> (of_char c2 :: nat)"
    "(of_char c1 :: nat) = 0xED \<longrightarrow> (of_char c2 :: nat) < 0xA0"
  shows "utf8_step (c1 # c2 # c3 # rest) = ([c1, c2, c3], 3)"
  using assms by (auto simp: utf8_step_def utf8_seq3_def Let_def)

lemma utf8_step_4:
  assumes "0xF0 \<le> (of_char c1 :: nat)" "(of_char c1 :: nat) < 0xF5"
    "is_continuation_byte c2" "is_continuation_byte c3" "is_continuation_byte c4"
    "(of_char c1 :: nat) = 0xF0 \<longrightarrow> 0x90 \<le> (of_char c2 :: nat)"
    "(of_char c1 :: nat) = 0xF4 \<longrightarrow> (of_char c2 :: nat) < 0x90"
  shows "utf8_step (c1 # c2 # c3 # c4 # rest) = ([c1, c2, c3, c4], 4)"
  using assms by (auto simp: utf8_step_def utf8_seq4_def Let_def)

lemma continuation_char_of: "is_continuation_byte (char_of (0x80 + n mod 64 :: nat))"
proof -
  have "(0x80 + n mod 64) mod 256 = 0x80 + n mod 64" by simp
  then show ?thesis by (simp add: is_continuation_byte_def)
qed




lemma enc2_lead: "0x80 \<le> cp \<Longrightarrow> cp < 0x800 \<Longrightarrow> 2 \<le> cp div 64 \<and> cp div 64 < (32::nat)"
  by (simp add: less_eq_div_iff_mult_less_eq div_less_iff_less_mult)
lemma enc3_not_overlong: "0x800 \<le> cp \<Longrightarrow> cp div 4096 = 0 \<Longrightarrow> 32 \<le> cp div 64 mod (64::nat)"
proof -
  assume a: "0x800 \<le> cp" "cp div 4096 = 0"
  then have "cp < 4096" by (simp add: div_eq_0_iff)
  then have "cp div 64 < 64" by (simp add: div_less_iff_less_mult)
  moreover from a(1) have "32 \<le> cp div 64" by (simp add: less_eq_div_iff_mult_less_eq)
  ultimately show ?thesis by simp
qed
lemma enc3_not_surrogate: "cp < 0xD800 \<Longrightarrow> cp div 4096 = 13 \<Longrightarrow> cp div 64 mod (64::nat) < 32"
proof -
  assume a: "cp < 0xD800" "cp div 4096 = 13"
  have "cp div 4096 = cp div 64 div 64" by (simp add: div_mult2_eq)
  with a(2) have d: "cp div 64 div 64 = 13" by simp
  have "cp div 64 = 64 * (cp div 64 div 64) + cp div 64 mod 64" by simp
  with d have e: "cp div 64 = 832 + cp div 64 mod 64" by simp
  from a(1) have "cp div 64 < 864" by (simp add: div_less_iff_less_mult)
  with e show ?thesis by linarith
qed
lemma enc4_not_overlong: "0x10000 \<le> cp \<Longrightarrow> cp div 262144 = 0 \<Longrightarrow> 16 \<le> cp div 4096 mod (64::nat)"
proof -
  assume a: "0x10000 \<le> cp" "cp div 262144 = 0"
  then have "cp < 262144" by (simp add: div_eq_0_iff)
  then have "cp div 4096 < 64" by (simp add: div_less_iff_less_mult)
  moreover from a(1) have "16 \<le> cp div 4096" by (simp add: less_eq_div_iff_mult_less_eq)
  ultimately show ?thesis by simp
qed
lemma enc4_in_range: "cp < 0x110000 \<Longrightarrow> cp div 262144 = 4 \<Longrightarrow> cp div 4096 mod (64::nat) < 16"
proof -
  assume a: "cp < 0x110000" "cp div 262144 = 4"
  have "cp div 262144 = cp div 4096 div 64" by (simp add: div_mult2_eq)
  with a(2) have d: "cp div 4096 div 64 = 4" by simp
  have "cp div 4096 = 64 * (cp div 4096 div 64) + cp div 4096 mod 64" by simp
  with d have e: "cp div 4096 = 256 + cp div 4096 mod 64" by simp
  from a(1) have "cp div 4096 < 272" by (simp add: div_less_iff_less_mult)
  with e show ?thesis by linarith
qed
lemma enc3_lead: "cp < 0x10000 \<Longrightarrow> cp div 4096 < (16::nat)"
  by (simp add: div_less_iff_less_mult)
lemma enc4_lead: "cp < 0x110000 \<Longrightarrow> cp div 262144 < (5::nat)"
  by (simp add: div_less_iff_less_mult)

lemma of_char_of_small: "n < 256 \<Longrightarrow> (of_char (char_of n) :: nat) = n"
  by simp

lemma utf8_step_encode_char:
  assumes "is_scalar_value cp"
  shows "utf8_step (utf8_encode_char cp @ rest) = (utf8_encode_char cp, length (utf8_encode_char cp))"
proof -
  consider "cp < 0x80" | "0x80 \<le> cp" "cp < 0x800" | "0x800 \<le> cp" "cp < 0x10000"
    | "0x10000 \<le> cp" "cp < 0x110000"
    using assms unfolding is_scalar_value_def by linarith
  then show ?thesis
  proof cases
    case 1
    then have "(of_char (char_of cp) :: nat) < 0x80" by (simp add: of_char_of_small)
    from utf8_step_1 [OF this] 1 show ?thesis
      by (simp add: utf8_encode_char_def)
  next
    case 2
    from enc2_lead [OF 2] have d: "2 \<le> cp div 64" "cp div 64 < 32" by simp_all
    then have m: "(of_char (char_of (0xC0 + cp div 64)) :: nat) = 0xC0 + cp div 64"
      by (intro of_char_of_small) simp
    have "0xC2 \<le> (of_char (char_of (0xC0 + cp div 64)) :: nat)"
      "(of_char (char_of (0xC0 + cp div 64)) :: nat) < 0xE0"
      unfolding m using d by simp_all
    from utf8_step_2 [OF this continuation_char_of] 2 show ?thesis
      by (simp add: utf8_encode_char_def)
  next
    case 3
    from enc3_lead [OF 3(2)] have d: "cp div 4096 < 16" .
    then have m: "(of_char (char_of (0xE0 + cp div 4096)) :: nat) = 0xE0 + cp div 4096"
      by (intro of_char_of_small) simp
    have m2: "(of_char (char_of (0x80 + cp div 64 mod 64)) :: nat) = 0x80 + cp div 64 mod 64"
      by (intro of_char_of_small) simp
    have lo: "cp div 4096 = 0 \<Longrightarrow> 32 \<le> cp div 64 mod 64"
      using 3(1) by (rule enc3_not_overlong)
    have "cp < 0xD800" if "cp div 4096 = 13"
    proof (rule ccontr)
      assume "\<not> cp < 0xD800"
      with assms have "0xE000 \<le> cp" by (simp add: is_scalar_value_def)
      then have "14 \<le> cp div 4096" by (simp add: less_eq_div_iff_mult_less_eq)
      with that show False by simp
    qed
    then have hi: "cp div 4096 = 13 \<Longrightarrow> cp div 64 mod 64 < 32"
      by (rule enc3_not_surrogate)
    have "0xE0 \<le> (of_char (char_of (0xE0 + cp div 4096)) :: nat)"
      "(of_char (char_of (0xE0 + cp div 4096)) :: nat) < 0xF0"
      "(of_char (char_of (0xE0 + cp div 4096)) :: nat) = 0xE0
        \<longrightarrow> 0xA0 \<le> (of_char (char_of (0x80 + cp div 64 mod 64)) :: nat)"
      "(of_char (char_of (0xE0 + cp div 4096)) :: nat) = 0xED
        \<longrightarrow> (of_char (char_of (0x80 + cp div 64 mod 64)) :: nat) < 0xA0"
      unfolding m m2 using d lo hi by simp_all
    from utf8_step_3 [OF this(1,2) continuation_char_of continuation_char_of this(3,4)] 3
    show ?thesis
      by (simp add: utf8_encode_char_def)
  next
    case 4
    from enc4_lead [OF 4(2)] have d: "cp div 262144 < 5" .
    then have m: "(of_char (char_of (0xF0 + cp div 262144)) :: nat) = 0xF0 + cp div 262144"
      by (intro of_char_of_small) simp
    have m2: "(of_char (char_of (0x80 + cp div 4096 mod 64)) :: nat) = 0x80 + cp div 4096 mod 64"
      by (intro of_char_of_small) simp
    have lo: "cp div 262144 = 0 \<Longrightarrow> 16 \<le> cp div 4096 mod 64"
      using 4(1) by (rule enc4_not_overlong)
    have hi: "cp div 262144 = 4 \<Longrightarrow> cp div 4096 mod 64 < 16"
      using 4(2) by (rule enc4_in_range)
    have "0xF0 \<le> (of_char (char_of (0xF0 + cp div 262144)) :: nat)"
      "(of_char (char_of (0xF0 + cp div 262144)) :: nat) < 0xF5"
      "(of_char (char_of (0xF0 + cp div 262144)) :: nat) = 0xF0
        \<longrightarrow> 0x90 \<le> (of_char (char_of (0x80 + cp div 4096 mod 64)) :: nat)"
      "(of_char (char_of (0xF0 + cp div 262144)) :: nat) = 0xF4
        \<longrightarrow> (of_char (char_of (0x80 + cp div 4096 mod 64)) :: nat) < 0x90"
      unfolding m m2 using d lo hi by simp_all
    from utf8_step_4 [OF this(1,2) continuation_char_of continuation_char_of
        continuation_char_of this(3,4)] 4
    show ?thesis
      by (simp add: utf8_encode_char_def)
  qed
qed

lemma utf8_encode_char_not_Nil: "utf8_encode_char cp \<noteq> []"
  by (simp add: utf8_encode_char_def)

lemma utf8_decode_ignore_encode_char:
  assumes "is_scalar_value cp"
  shows "utf8_decode_ignore (utf8_encode_char cp @ rest) =
         utf8_encode_char cp @ utf8_decode_ignore rest"
proof -
  obtain c cs where e: "utf8_encode_char cp = c # cs"
    using utf8_encode_char_not_Nil [of cp] by (cases "utf8_encode_char cp") auto
  have "utf8_step (c # cs @ rest) = (c # cs, Suc (length cs))"
    using utf8_step_encode_char [OF assms, of rest] unfolding e by simp
  then show ?thesis unfolding e by simp
qed

lemma utf8_decode_ignore_encode:
  "list_all is_scalar_value cps \<Longrightarrow> utf8_decode_ignore (utf8_encode cps) = utf8_encode cps"
  by (induction cps) (simp_all add: utf8_encode_def utf8_decode_ignore_encode_char)

subsection \<open>Characters outside the alphabet, and missing padding\<close>










text \<open>
  C6: for every UTF-8 string \<open>s\<close>, that is the UTF-8 encoding of any sequence of
  Unicode scalar values, \<open>_decode_part\<close> applied to the URL-safe base64 encoding of \<open>s\<close>
  returns \<open>s\<close>.
\<close>

theorem C6_decode_encode_roundtrip:
  "list_all is_scalar_value cps \<Longrightarrow>
   decode_part (Some (urlsafe_b64encode (utf8_encode cps))) = Inr (utf8_encode cps)"
  by (simp add: decode_part_def urlsafe_b64encode_eq_Nil urlsafe_b64decode_encode
      utf8_decode_ignore_encode)

theorem C6_decode_encode_roundtrip_witness:
  "list_all is_scalar_value [0x20AC, 0x41, 0x1F600, 0xE9]
   \<and> urlsafe_b64encode (utf8_encode [0x20AC, 0x41, 0x1F600, 0xE9]) = ''4oKsQfCfmIDDqQ==''
   \<and> decode_part (Some ''4oKsQfCfmIDDqQ=='')
       = Inr [CHR 0xE2, CHR 0x82, CHR 0xAC, CHR ''A'', CHR 0xF0, CHR 0x9F, CHR 0x98, CHR 0x80,
              CHR 0xC3, CHR 0xA9]"
proof -
  have s: "list_all is_scalar_value [0x20AC, 0x41, 0x1F600, 0xE9]"
    by (simp add: is_scalar_value_def)
  have u: "utf8_encode [0x20AC, 0x41, 0x1F600, 0xE9]
      = [CHR 0xE2, CHR 0x82, CHR 0xAC, CHR ''A'', CHR 0xF0, CHR 0x9F, CHR 0x98, CHR 0x80,
         CHR 0xC3, CHR 0xA9]"
    by (simp add: utf8_encode_def utf8_encode_char_def char_of_eq_iff take_bit_eq_mod)
  have b0: "urlsafe_b64encode [CHR 0xE2, CHR 0x82, CHR 0xAC, CHR ''A'', CHR 0xF0, CHR 0x9F, CHR 0x98,
         CHR 0x80, CHR 0xC3, CHR 0xA9] = ''4oKsQfCfmIDDqQ==''"
    by code_simp
  from u b0 have b: "urlsafe_b64encode (utf8_encode [0x20AC, 0x41, 0x1F600, 0xE9])
      = ''4oKsQfCfmIDDqQ==''"
    by simp
  from C6_decode_encode_roundtrip [OF s]
  have d: "decode_part (Some ''4oKsQfCfmIDDqQ=='')
       = Inr [CHR 0xE2, CHR 0x82, CHR 0xAC, CHR ''A'', CHR 0xF0, CHR 0x9F, CHR 0x98, CHR 0x80,
              CHR 0xC3, CHR 0xA9]"
    by (simp only: u b0)
  from s b d show ?thesis by (intro conjI)
qed

section \<open>Properties of \<open>extract_body_from_payload\<close>\<close>

text \<open>
  C2, as the specification states it: for every part whose direct data is present,
  \<open>extract_body_from_payload\<close> returns the decoded direct data and ignores the
  children.  The code tests \<open>if body:\<close>, which is false for a present but empty
  string: with direct data \<open>""\<close> and one \<open>text/plain\<close> child holding \<open>QQ==\<close> the
  result is the child's text \<open>A\<close>, not the decoding of the direct data (the
  empty string).
\<close>

theorem C2_present_empty_data_counterexample:
  "extract_body_from_payload id
     (Part None (Some []) [Part (Some ''text/plain'') (Some ''QQ=='') []]) = Inr ''A''
   \<and> decode_part (Some []) = Inr []"
  by code_simp

text \<open>
  C2, amended: for every part whose direct data is present and not empty,
  whatever its children are, \<open>extract_body_from_payload\<close> returns what
  \<open>_decode_part\<close> returns on the direct data (its result or its error); the
  children play no role.
\<close>

theorem C2_fast_path:
  "d \<noteq> [] \<Longrightarrow>
   extract_body_from_payload get_text (Part m (Some d) children) = decode_part (Some d)"
  by (simp add: extract_body_from_payload_def truthy_def)

theorem C2_fast_path_witness:
  "''QQ=='' \<noteq> []
   \<and> extract_body_from_payload id
        (Part (Some ''multipart/mixed'') (Some ''QQ=='')
           [Part (Some ''text/plain'') (Some ''Qg=='') []]) = Inr ''A''"
proof -
  have ne: "''QQ=='' \<noteq> []" by simp
  have "extract_body_from_payload id
        (Part (Some ''multipart/mixed'') (Some ''QQ=='')
           [Part (Some ''text/plain'') (Some ''Qg=='') []]) = decode_part (Some ''QQ=='')"
    by (rule C2_fast_path [OF ne])
  also have "\<dots> = Inr ''A''" by code_simp
  finally show ?thesis using ne by simp
qed



text \<open>
  C4: the traversal reads the root, its children and their children, and nothing
  deeper: cutting the tree below depth two does not change the result.  Hence a tree
  with no data at the root nor at depth one or two returns the sentinel
  \<open>(No readable body found)\<close>, whatever lies at depth three or more.
\<close>

theorem C4_depth_cap:
  "extract_body_from_payload get_text payload =
     extract_body_from_payload get_text (prune 2 payload)
   \<and> (\<not> truthy (body_data payload)
        \<and> (\<forall>p\<in>set (parts payload). \<not> truthy (body_data p)
              \<and> (\<forall>s\<in>set (parts p). \<not> truthy (body_data s)))
      \<longrightarrow> extract_body_from_payload get_text payload = Inr ''(No readable body found)'')"
proof (intro conjI impI)
  show "extract_body_from_payload get_text payload =
          extract_body_from_payload get_text (prune 2 payload)"
    using extract_prune [of get_text 0 payload] by (simp add: numeral_2_eq_2)
next
  assume h: "\<not> truthy (body_data payload)
        \<and> (\<forall>p\<in>set (parts payload). \<not> truthy (body_data p)
              \<and> (\<forall>s\<in>set (parts p). \<not> truthy (body_data s)))"
  then have v: "\<forall>q\<in>set (visit_order (parts payload)). \<not> truthy (body_data q)"
    by (auto simp: visit_order_set)
  then have "list_all decodable (visit_order (parts payload))"
    by (simp add: list_all_iff decodable_falsy)
  moreover from v have "concat (map (decoded_as mime) (visit_order (parts payload))) = []" for mime
    by (simp add: decoded_as_falsy)
  ultimately have "parts_loop (parts payload) ([], []) = Inr ([], [])"
    by (simp add: parts_loop_eq)
  with h show "extract_body_from_payload get_text payload = Inr ''(No readable body found)''"
    by (simp add: extract_body_from_payload_def no_readable_body_def)
qed

theorem C4_depth_cap_witness:
  "extract_body_from_payload id
     (Part (Some ''multipart/mixed'') None
        [Part (Some ''multipart/signed'') None
           [Part (Some ''multipart/alternative'') None
              [Part (Some ''text/plain'') (Some ''QQ=='') []]]])
   = Inr ''(No readable body found)''"
proof -
  have "\<not> truthy (body_data (Part (Some ''multipart/mixed'') None
        [Part (Some ''multipart/signed'') None
           [Part (Some ''multipart/alternative'') None
              [Part (Some ''text/plain'') (Some ''QQ=='') []]]]))
        \<and> (\<forall>p\<in>set (parts (Part (Some ''multipart/mixed'') None
        [Part (Some ''multipart/signed'') None
           [Part (Some ''multipart/alternative'') None
              [Part (Some ''text/plain'') (Some ''QQ=='') []]]])). \<not> truthy (body_data p)
              \<and> (\<forall>s\<in>set (parts p). \<not> truthy (body_data s)))"
    by (simp add: truthy_def)
  with C4_depth_cap [of id "Part (Some ''multipart/mixed'') None
        [Part (Some ''multipart/signed'') None
           [Part (Some ''multipart/alternative'') None
              [Part (Some ''text/plain'') (Some ''QQ=='') []]]]"]
  show ?thesis by blast
qed

text \<open>
  C5, as the specification states it: the buckets are filled in breadth-first order,
  every decoded top-level part before any decoded child.  With two \<open>text/plain\<close>
  top-level parts holding \<open>A\<close> and \<open>C\<close>, the first of them with a \<open>text/plain\<close>
  child holding \<open>B\<close>, the code builds \<open>[A, B, C]\<close>: the child \<open>B\<close> comes before
  the top-level part \<open>C\<close>, where breadth-first order gives \<open>[A, C, B]\<close>.
\<close>

theorem C5_breadth_first_counterexample:
  "parts_loop
     [Part (Some ''text/plain'') (Some ''QQ=='')
        [Part (Some ''text/plain'') (Some ''Qg=='') []],
      Part (Some ''text/plain'') (Some ''Qw=='') []] ([], [])
   = Inr ([''A'', ''B'', ''C''], [])
   \<and> concat (map (decoded_as ''text/plain'') (spec_breadth_first_order
     [Part (Some ''text/plain'') (Some ''QQ=='')
        [Part (Some ''text/plain'') (Some ''Qg=='') []],
      Part (Some ''text/plain'') (Some ''Qw=='') []])) = [''A'', ''C'', ''B'']"
  by code_simp

text \<open>
  C5, amended: within each bucket the entries appear in the order of the two nested
  loops: top-level parts from left to right, each followed at once by its own
  children from left to right, before the next top-level part.
\<close>

theorem C5_bucket_order:
  "list_all decodable (visit_order ps) \<Longrightarrow>
   parts_loop ps ([], []) =
     Inr (concat (map (decoded_as ''text/plain'') (visit_order ps)),
          concat (map (decoded_as ''text/html'') (visit_order ps)))"
  by (simp add: parts_loop_eq)

theorem C5_bucket_order_witness:
  "list_all decodable (visit_order
     [Part (Some ''text/html'') (Some ''QQ=='')
        [Part (Some ''text/plain'') (Some ''Qg=='') []],
      Part (Some ''text/plain'') (Some ''Qw=='') []])
   \<and> parts_loop
     [Part (Some ''text/html'') (Some ''QQ=='')
        [Part (Some ''text/plain'') (Some ''Qg=='') []],
      Part (Some ''text/plain'') (Some ''Qw=='') []] ([], [])
     = Inr ([''B'', ''C''], [''A''])"
proof -
  have d: "list_all decodable (visit_order
     [Part (Some ''text/html'') (Some ''QQ=='')
        [Part (Some ''text/plain'') (Some ''Qg=='') []],
      Part (Some ''text/plain'') (Some ''Qw=='') []])"
    by code_simp
  have t: "concat (map (decoded_as ''text/plain'') (visit_order
     [Part (Some ''text/html'') (Some ''QQ=='')
        [Part (Some ''text/plain'') (Some ''Qg=='') []],
      Part (Some ''text/plain'') (Some ''Qw=='') []])) = [''B'', ''C'']"
    by code_simp
  have h: "concat (map (decoded_as ''text/html'') (visit_order
     [Part (Some ''text/html'') (Some ''QQ=='')
        [Part (Some ''text/plain'') (Some ''Qg=='') []],
      Part (Some ''text/plain'') (Some ''Qw=='') []])) = [''A'']"
    by code_simp
  from C5_bucket_order [OF d] t h d show ?thesis by simp
qed

text \<open>
  C10, as stated: a depth-one part that has its own data and children has its own
  decoded data collected.  The test on the data is again \<open>if data:\<close>: a
  \<open>text/plain\<close> part whose data is the empty string contributes no entry (the
  decoding of its data would be the empty string), although its child is collected.
\<close>

theorem C10_empty_own_data_counterexample:
  "parts_loop
     [Part (Some ''text/plain'') (Some [])
        [Part (Some ''text/plain'') (Some ''QQ=='') []]] ([], [])
   = Inr ([''A''], [])
   \<and> decode_part (Some []) = Inr []"
  by code_simp

lemma decoded_as_truthy:
  "truthy (body_data p) \<Longrightarrow> decodable p \<Longrightarrow> get_mimeType p = mime \<Longrightarrow>
   mime = ''text/plain'' \<or> mime = ''text/html'' \<Longrightarrow>
   \<exists>t. decode_part (body_data p) = Inr t \<and> decoded_as mime p = [t]"
  by (auto simp: decodable_def decoded_as_def split: sum.splits)

text \<open>
  C10, amended: below the root there is no fast path.  When the traversal completes,
  a depth-one part with non-empty data of its own and with children has its own
  decoded data in the bucket of its MIME type, and every child of it that has
  non-empty data has its decoded data in the bucket of the child's MIME type.
\<close>

theorem C10_no_fast_path_below_root:
  assumes "p \<in> set ps" and "truthy (body_data p)" and "parts p \<noteq> []"
    and "parts_loop ps ([], []) = Inr (text_parts, html_parts)"
  shows "(get_mimeType p = ''text/plain'' \<longrightarrow>
            (\<exists>t. decode_part (body_data p) = Inr t \<and> t \<in> set text_parts))
       \<and> (get_mimeType p = ''text/html'' \<longrightarrow>
            (\<exists>t. decode_part (body_data p) = Inr t \<and> t \<in> set html_parts))
       \<and> (\<forall>sub\<in>set (parts p). truthy (body_data sub) \<longrightarrow>
            (get_mimeType sub = ''text/plain'' \<longrightarrow>
               (\<exists>t. decode_part (body_data sub) = Inr t \<and> t \<in> set text_parts))
          \<and> (get_mimeType sub = ''text/html'' \<longrightarrow>
               (\<exists>t. decode_part (body_data sub) = Inr t \<and> t \<in> set html_parts)))"
proof -
  from assms(4) have ok: "list_all decodable (visit_order ps)"
    and tp: "text_parts = concat (map (decoded_as ''text/plain'') (visit_order ps))"
    and hp: "html_parts = concat (map (decoded_as ''text/html'') (visit_order ps))"
    by (simp_all add: parts_loop_eq split: if_splits)
  have visited: "q \<in> set (visit_order ps)" if "q = p \<or> q \<in> set (parts p)" for q
    using that assms(1) by (auto simp: visit_order_set)
  have collected: "\<exists>t. decode_part (body_data q) = Inr t \<and> t \<in> set text_parts"
    if "q = p \<or> q \<in> set (parts p)" "truthy (body_data q)" "get_mimeType q = ''text/plain''" for q
  proof -
    from visited [OF that(1)] ok have "decodable q" by (simp add: list_all_iff)
    from decoded_as_truthy [OF that(2) this that(3)] obtain t
      where "decode_part (body_data q) = Inr t" "decoded_as ''text/plain'' q = [t]" by auto
    with visited [OF that(1)] show ?thesis unfolding tp by force
  qed
  have collected_html: "\<exists>t. decode_part (body_data q) = Inr t \<and> t \<in> set html_parts"
    if "q = p \<or> q \<in> set (parts p)" "truthy (body_data q)" "get_mimeType q = ''text/html''" for q
  proof -
    from visited [OF that(1)] ok have "decodable q" by (simp add: list_all_iff)
    from decoded_as_truthy [OF that(2) this that(3)] obtain t
      where "decode_part (body_data q) = Inr t" "decoded_as ''text/html'' q = [t]" by auto
    with visited [OF that(1)] show ?thesis unfolding hp by force
  qed
  from collected collected_html assms(2) show ?thesis by blast
qed

theorem C10_no_fast_path_below_root_witness:
  "parts_loop
     [Part (Some ''text/plain'') (Some ''QQ=='')
        [Part (Some ''text/html'') (Some ''Qg=='') []]] ([], []) = Inr ([''A''], [''B''])
   \<and> (\<exists>t. decode_part (Some ''QQ=='') = Inr t \<and> t \<in> set [''A''])
   \<and> (\<exists>t. decode_part (Some ''Qg=='') = Inr t \<and> t \<in> set [''B''])"
proof -
  have run: "parts_loop
     [Part (Some ''text/plain'') (Some ''QQ=='')
        [Part (Some ''text/html'') (Some ''Qg=='') []]] ([], []) = Inr ([''A''], [''B''])"
    by code_simp
  have "Part (Some ''text/plain'') (Some ''QQ=='')
          [Part (Some ''text/html'') (Some ''Qg=='') []]
        \<in> set [Part (Some ''text/plain'') (Some ''QQ=='')
                 [Part (Some ''text/html'') (Some ''Qg=='') []]]"
    by simp
  moreover have "truthy (body_data (Part (Some ''text/plain'') (Some ''QQ=='')
          [Part (Some ''text/html'') (Some ''Qg=='') []]))"
    by (simp add: truthy_def)
  moreover have "parts (Part (Some ''text/plain'') (Some ''QQ=='')
          [Part (Some ''text/html'') (Some ''Qg=='') []]) \<noteq> []"
    by simp
  ultimately have "(get_mimeType (Part (Some ''text/plain'') (Some ''QQ=='')
          [Part (Some ''text/html'') (Some ''Qg=='') []]) = ''text/plain'' \<longrightarrow>
            (\<exists>t. decode_part (body_data (Part (Some ''text/plain'') (Some ''QQ=='')
          [Part (Some ''text/html'') (Some ''Qg=='') []])) = Inr t \<and> t \<in> set [''A'']))
       \<and> (\<forall>sub\<in>set (parts (Part (Some ''text/plain'') (Some ''QQ=='')
          [Part (Some ''text/html'') (Some ''Qg=='') []])). truthy (body_data sub) \<longrightarrow>
          (get_mimeType sub = ''text/html'' \<longrightarrow>
               (\<exists>t. decode_part (body_data sub) = Inr t \<and> t \<in> set [''B''])))"
    using C10_no_fast_path_below_root [OF _ _ _ run] by blast
  then have "(\<exists>t. decode_part (Some ''QQ=='') = Inr t \<and> t \<in> set [''A''])
       \<and> (\<exists>t. decode_part (Some ''Qg=='') = Inr t \<and> t \<in> set [''B''])"
    by (simp add: get_mimeType_def truthy_def)
  with run show ?thesis by simp
qed

section \<open>Properties of \<open>fetch_unread_emails\<close>\<close>

lemma build_email_id: "build_email gt mid md = Inr r \<Longrightarrow> e_id r = mid"
  by (auto simp: build_email_def Let_def split: prod.splits sum.splits)

lemma fetch_loop_ids:
  "fetch_loop gt svc msgs acc = Inr results \<Longrightarrow>
   map (Some \<circ> e_id) results = map (Some \<circ> e_id) acc @ msgs"
  by (induction msgs arbitrary: acc)
     (auto split: option.splits sum.splits dest: build_email_id)

lemma fetch_loop_succeeds:
  "\<forall>m\<in>set msgs. \<exists>mid md r. m = Some mid \<and> messages_get svc mid = Inr md
      \<and> build_email gt mid md = Inr r
   \<Longrightarrow> \<exists>results. fetch_loop gt svc msgs acc = Inr results"
  by (induction msgs arbitrary: acc) auto

text \<open>
  C7: whenever \<open>fetch_unread_emails\<close> returns, it returns exactly one record per
  identifier the service listed, in the order of the listing; and it does return
  when the listing succeeds and every listed message is retrieved and extracted
  without error.  In particular a request for 5 messages against a mailbox with 3
  unread messages gives 3 records in the listing order (the witness).
\<close>

theorem C7_one_record_per_id_in_order:
  "(fetch_unread_emails get_text svc n = Inr results \<longrightarrow>
      messages_list svc n = Inr (map (Some \<circ> e_id) results))
   \<and> (messages_list svc n = Inr msgs
        \<and> (\<forall>m\<in>set msgs. \<exists>mid md r. m = Some mid \<and> messages_get svc mid = Inr md
               \<and> build_email get_text mid md = Inr r)
      \<longrightarrow> (\<exists>rs. fetch_unread_emails get_text svc n = Inr rs
              \<and> map (Some \<circ> e_id) rs = msgs \<and> length rs = length msgs))"
proof (intro conjI impI)
  assume "fetch_unread_emails get_text svc n = Inr results"
  then show "messages_list svc n = Inr (map (Some \<circ> e_id) results)"
    by (auto simp: fetch_unread_emails_def split: sum.splits dest: fetch_loop_ids)
next
  assume h: "messages_list svc n = Inr msgs
        \<and> (\<forall>m\<in>set msgs. \<exists>mid md r. m = Some mid \<and> messages_get svc mid = Inr md
               \<and> build_email get_text mid md = Inr r)"
  then obtain rs where rs: "fetch_loop get_text svc msgs [] = Inr rs"
    using fetch_loop_succeeds [of msgs svc get_text "[]"] by blast
  from fetch_loop_ids [OF rs] have ids: "map (Some \<circ> e_id) rs = msgs" by simp
  then have "length rs = length msgs" by (metis length_map)
  with rs ids h show "\<exists>rs. fetch_unread_emails get_text svc n = Inr rs
              \<and> map (Some \<circ> e_id) rs = msgs \<and> length rs = length msgs"
    by (simp add: fetch_unread_emails_def)
qed

theorem C7_one_record_per_id_in_order_witness:
  "\<exists>rs. fetch_unread_emails id three_unread 5 = Inr rs
      \<and> map (Some \<circ> e_id) rs = [Some ''m1'', Some ''m2'', Some ''m3''] \<and> length rs = 3"
proof -
  have l: "messages_list three_unread 5 = Inr [Some ''m1'', Some ''m2'', Some ''m3'']"
    by (simp add: three_unread_def)
  have b: "\<exists>r. build_email id mid
        \<lparr>md_payload = Some
           \<lparr>headers = [\<lparr>h_name = Some ''Subject'', h_value = Some ''Q3 Invoice''\<rparr>,
                       \<lparr>h_name = Some ''From'', h_value = Some ''billing@acme.test''\<rparr>],
            root = Part (Some ''text/plain'') (Some ''QQ=='') []\<rparr>,
         md_snippet = Some mid\<rparr> = Inr r" for mid
  proof -
    have "decode_part (Some ''QQ=='') = Inr ''A''" by code_simp
    then show ?thesis
      by (simp add: build_email_def get_payload_def extract_body_from_payload_def truthy_def
          split: prod.splits)
  qed
  have g: "\<forall>m\<in>set [Some ''m1'', Some ''m2'', Some ''m3''].
      \<exists>mid md r. m = Some mid \<and> messages_get three_unread mid = Inr md
        \<and> build_email id mid md = Inr r"
    using b by (simp add: three_unread_def)
  have "\<exists>rs. fetch_unread_emails id three_unread 5 = Inr rs
      \<and> map (Some \<circ> e_id) rs = [Some ''m1'', Some ''m2'', Some ''m3'']
      \<and> length rs = length [Some ''m1'', Some ''m2'', Some ''m3'']"
    using C7_one_record_per_id_in_order
      [of id three_unread 5 _ "[Some ''m1'', Some ''m2'', Some ''m3'']"] l g
    by blast
  then show ?thesis by (simp add: numeral_3_eq_3)
qed

subsection \<open>The loop over the headers\<close>

lemma header_loop_fst:
  "fst (header_loop hs (s, f)) =
     last (s # List.map_filter h_value (matching_headers ''subject'' hs))"
  by (induction hs arbitrary: s f)
     (auto simp: matching_headers_def Let_def List.map_filter_simps split: option.splits)

lemma header_loop_snd:
  "snd (header_loop hs (s, f)) =
     last (f # List.map_filter h_value (matching_headers ''from'' hs))"
  by (induction hs arbitrary: s f)
     (auto simp: matching_headers_def Let_def List.map_filter_simps split: option.splits)

lemma last_map_filter:
  "xs \<noteq> [] \<Longrightarrow> g (last xs) = Some v \<Longrightarrow> last (s # List.map_filter g xs) = v"
  by (induction xs rule: rev_induct) (auto simp: List.map_filter_def)


lemma build_email_headers:
  "build_email gt mid md = Inr r \<Longrightarrow>
   (e_subject r, e_sender r) = subject_and_sender (headers (get_payload md))"
  by (auto simp: build_email_def Let_def split: prod.splits sum.splits)

lemma build_email_subject:
  "build_email gt mid md = Inr r \<Longrightarrow>
   e_subject r = last (''(No Subject)'' #
     List.map_filter h_value (matching_headers ''subject'' (headers (get_payload md))))"
  using build_email_headers [of gt mid md r] header_loop_fst [of "headers (get_payload md)"]
  by (metis fst_conv subject_and_sender_def)

lemma build_email_sender:
  "build_email gt mid md = Inr r \<Longrightarrow>
   e_sender r = last (''(Unknown Sender)'' #
     List.map_filter h_value (matching_headers ''from'' (headers (get_payload md))))"
  using build_email_headers [of gt mid md r] header_loop_snd [of "headers (get_payload md)"]
  by (metis snd_conv subject_and_sender_def)



text \<open>
  C9: when several headers are named \<open>subject\<close> (or \<open>from\<close>) up to case, the record
  has the value of the last of them in the header sequence.
\<close>

theorem C9_last_matching_header_wins:
  assumes "build_email get_text mid md = Inr r"
  shows "(matching_headers ''subject'' (headers (get_payload md)) \<noteq> []
        \<and> h_value (last (matching_headers ''subject'' (headers (get_payload md)))) = Some v
      \<longrightarrow> e_subject r = v)
     \<and> (matching_headers ''from'' (headers (get_payload md)) \<noteq> []
        \<and> h_value (last (matching_headers ''from'' (headers (get_payload md)))) = Some w
      \<longrightarrow> e_sender r = w)"
proof (intro conjI impI)
  assume "matching_headers ''subject'' (headers (get_payload md)) \<noteq> []
        \<and> h_value (last (matching_headers ''subject'' (headers (get_payload md)))) = Some v"
  then have "last (''(No Subject)'' #
     List.map_filter h_value (matching_headers ''subject'' (headers (get_payload md)))) = v"
    by (intro last_map_filter) simp_all
  with build_email_subject [OF assms] show "e_subject r = v" by simp
next
  assume "matching_headers ''from'' (headers (get_payload md)) \<noteq> []
        \<and> h_value (last (matching_headers ''from'' (headers (get_payload md)))) = Some w"
  then have "last (''(Unknown Sender)'' #
     List.map_filter h_value (matching_headers ''from'' (headers (get_payload md)))) = w"
    by (intro last_map_filter) simp_all
  with build_email_sender [OF assms] show "e_sender r = w" by simp
qed

theorem C9_last_matching_header_wins_witness:
  "\<exists>r. build_email id ''m1''
      \<lparr>md_payload = Some
         \<lparr>headers = [\<lparr>h_name = Some ''Subject'', h_value = Some ''first''\<rparr>,
                     \<lparr>h_name = Some ''From'', h_value = Some ''a@x.test''\<rparr>,
                     \<lparr>h_name = Some ''SUBJECT'', h_value = Some ''second''\<rparr>,
                     \<lparr>h_name = Some ''from'', h_value = Some ''b@x.test''\<rparr>],
          root = Part (Some ''text/plain'') (Some ''QQ=='') []\<rparr>,
       md_snippet = None\<rparr> = Inr r
     \<and> e_subject r = ''second'' \<and> e_sender r = ''b@x.test''"
proof -
  have run: "\<exists>r. build_email id ''m1''
      \<lparr>md_payload = Some
         \<lparr>headers = [\<lparr>h_name = Some ''Subject'', h_value = Some ''first''\<rparr>,
                     \<lparr>h_name = Some ''From'', h_value = Some ''a@x.test''\<rparr>,
                     \<lparr>h_name = Some ''SUBJECT'', h_value = Some ''second''\<rparr>,
                     \<lparr>h_name = Some ''from'', h_value = Some ''b@x.test''\<rparr>],
          root = Part (Some ''text/plain'') (Some ''QQ=='') []\<rparr>,
       md_snippet = None\<rparr> = Inr r"
  proof -
    have "decode_part (Some ''QQ=='') = Inr ''A''" by code_simp
    then show ?thesis
      by (simp add: build_email_def get_payload_def extract_body_from_payload_def truthy_def
          split: prod.splits)
  qed
  have hs: "headers (get_payload
      \<lparr>md_payload = Some
         \<lparr>headers = [\<lparr>h_name = Some ''Subject'', h_value = Some ''first''\<rparr>,
                     \<lparr>h_name = Some ''From'', h_value = Some ''a@x.test''\<rparr>,
                     \<lparr>h_name = Some ''SUBJECT'', h_value = Some ''second''\<rparr>,
                     \<lparr>h_name = Some ''from'', h_value = Some ''b@x.test''\<rparr>],
          root = Part (Some ''text/plain'') (Some ''QQ=='') []\<rparr>,
       md_snippet = None\<rparr>)
     = [\<lparr>h_name = Some ''Subject'', h_value = Some ''first''\<rparr>,
        \<lparr>h_name = Some ''From'', h_value = Some ''a@x.test''\<rparr>,
        \<lparr>h_name = Some ''SUBJECT'', h_value = Some ''second''\<rparr>,
        \<lparr>h_name = Some ''from'', h_value = Some ''b@x.test''\<rparr>]"
    by (simp add: get_payload_def)
  have ms: "matching_headers ''subject''
       [\<lparr>h_name = Some ''Subject'', h_value = Some ''first''\<rparr>,
        \<lparr>h_name = Some ''From'', h_value = Some ''a@x.test''\<rparr>,
        \<lparr>h_name = Some ''SUBJECT'', h_value = Some ''second''\<rparr>,
        \<lparr>h_name = Some ''from'', h_value = Some ''b@x.test''\<rparr>]
     = [\<lparr>h_name = Some ''Subject'', h_value = Some ''first''\<rparr>,
        \<lparr>h_name = Some ''SUBJECT'', h_value = Some ''second''\<rparr>]"
    by code_simp
  have mf: "matching_headers ''from''
       [\<lparr>h_name = Some ''Subject'', h_value = Some ''first''\<rparr>,
        \<lparr>h_name = Some ''From'', h_value = Some ''a@x.test''\<rparr>,
        \<lparr>h_name = Some ''SUBJECT'', h_value = Some ''second''\<rparr>,
        \<lparr>h_name = Some ''from'', h_value = Some ''b@x.test''\<rparr>]
     = [\<lparr>h_name = Some ''From'', h_value = Some ''a@x.test''\<rparr>,
        \<lparr>h_name = Some ''from'', h_value = Some ''b@x.test''\<rparr>]"
    by code_simp
  from run obtain r where r: "build_email id ''m1''
      \<lparr>md_payload = Some
         \<lparr>headers = [\<lparr>h_name = Some ''Subject'', h_value = Some ''first''\<rparr>,
                     \<lparr>h_name = Some ''From'', h_value = Some ''a@x.test''\<rparr>,
                     \<lparr>h_name = Some ''SUBJECT'', h_value = Some ''second''\<rparr>,
                     \<lparr>h_name = Some ''from'', h_value = Some ''b@x.test''\<rparr>],
          root = Part (Some ''text/plain'') (Some ''QQ=='') []\<rparr>,
       md_snippet = None\<rparr> = Inr r" ..
  from C9_last_matching_header_wins [OF r, of "''second''" "''b@x.test''"]
  have "e_subject r = ''second'' \<and> e_sender r = ''b@x.test''"
    unfolding hs ms mf by simp
  with r show ?thesis by blast
qed

end
